theory Spec2Isabelle
  imports Main "HOL-Library.Multiset"
begin

section \<open>Drive utilities: the deduper and the photo date fixer\<close>

text \<open>
  A shallow embedding of \<^verbatim>\<open>deduper/dedup.py\<close> and of
  \<^verbatim>\<open>photo-date-fixer/datefix.py\<close>. Both scripts talk to a remote
  service through a client library; the library and the service are parameters of the
  model. What a run does is recorded as a list of events (lines printed, the prompt,
  requests added to a batch, batch calls made to the service), in the order of the source's
  statements.
\<close>

subsection \<open>Data\<close>

text \<open>
  One item of the listing, with the fields the deduper asks for
  (\<^verbatim>\<open>id, md5Checksum, title, alternateLink, quotaBytesUsed\<close>).
  \<^verbatim>\<open>fetch_all_metadata\<close> keeps only the items that carry an
  \<^verbatim>\<open>md5Checksum\<close>, so every item has the field. The service sends
  \<^verbatim>\<open>quotaBytesUsed\<close> as a decimal string and the script reads it with
  \<^verbatim>\<open>int(...)\<close>; the field holds that integer.
\<close>

record drive_file =
  file_id :: string
  md5Checksum :: string
  title :: string
  alternateLink :: string
  quotaBytesUsed :: int

text \<open>
  What a batch call to the service can do. The call either returns, after the library has
  handed the result of every sub-request to that request's callback, or it raises (the
  batch call as a whole failed). The scripts register no callback and drop the return
  value, so only the difference between returning and raising reaches them.
\<close>

datatype response = Completed "bool list" | BatchError

text \<open>
  \<^verbatim>\<open>batch.execute()\<close> of the client library. When no request has been
  added to the batch the library returns at once and nothing is sent (\<open>None\<close>);
  otherwise it makes one call to the service with the requests of the batch, in the order
  they were added. \<open>remote\<close> is the service: what the call with these requests does.
\<close>

definition execute :: "('r list \<Rightarrow> response) \<Rightarrow> 'r list \<Rightarrow> response option" where
  "execute remote b = (if b = [] then None else Some (remote b))"

datatype status = Returned | Raised

datatype event =
    Out string
  | OutFound nat
  | OutLink string string
  | OutWasted int int
  | RawInput string
  | BatchAdd string
  | BatchExecute "string list"

text \<open>\<^verbatim>\<open>ONE_GIG = float(1073741824)\<close>\<close>

definition ONE_GIG :: int where
  "ONE_GIG = 1073741824"

subsection \<open>\<^verbatim>\<open>find_dupes\<close>\<close>

text \<open>
  \<^verbatim>\<open>index = defaultdict(list)\<close> is kept as an association list whose keys
  are distinct; \<^verbatim>\<open>index[k].append(f)\<close> appends to the entry of \<open>k\<close>,
  creating it when the key is new.
\<close>

fun index_append :: "string \<Rightarrow> drive_file \<Rightarrow> (string \<times> drive_file list) list \<Rightarrow> (string \<times> drive_file list) list" where
  "index_append k f [] = [(k, [f])]"
| "index_append k f ((k', v) # rest) =
     (if k' = k then (k', v @ [f]) # rest else (k', v) # index_append k f rest)"

fun build_index :: "drive_file list \<Rightarrow> (string \<times> drive_file list) list \<Rightarrow> (string \<times> drive_file list) list" where
  "build_index [] index = index"
| "build_index (f # files) index = build_index files (index_append (md5Checksum f) f index)"

fun collect_dupes :: "(string \<times> drive_file list) list \<Rightarrow> drive_file list list \<Rightarrow> drive_file list list" where
  "collect_dupes [] dupes = dupes"
| "collect_dupes ((k, v) # rest) dupes =
     collect_dupes rest (if length v > 1 then dupes @ [v] else dupes)"

text \<open>
  The order in which \<^verbatim>\<open>index.items()\<close> enumerates a Python 2 dictionary is
  not fixed by the language; \<open>items\<close> is that enumeration, a parameter.
\<close>

definition find_dupes ::
  "((string \<times> drive_file list) list \<Rightarrow> (string \<times> drive_file list) list) \<Rightarrow> drive_file list \<Rightarrow> drive_file list list" where
  "find_dupes items files = collect_dupes (items (build_index files [])) []"

subsection \<open>\<^verbatim>\<open>main\<close> of the deduper\<close>

text \<open>\<^verbatim>\<open>conf.strip()\<close> on a Python 2 byte string removes leading and
  trailing tab, line feed, vertical tab, form feed, carriage return and space.\<close>

definition isspace :: "char \<Rightarrow> bool" where
  "isspace c = (c \<in> set [CHR 0x09, CHR 0x0A, CHR 0x0B, CHR 0x0C, CHR 0x0D, CHR 0x20])"

definition strip :: "string \<Rightarrow> string" where
  "strip s = rev (dropWhile isspace (rev (dropWhile isspace s)))"

text \<open>The report loop (lines 101 to 107): state is the running total (\<open>tot\<close>) and the trace.\<close>

fun print_dupeset :: "drive_file list \<Rightarrow> event list \<Rightarrow> event list" where
  "print_dupeset [] tr = tr"
| "print_dupeset (dupe # rest) tr =
     print_dupeset rest (tr @ [OutLink (alternateLink dupe) (title dupe)])"

fun add_sizes :: "drive_file list \<Rightarrow> int \<Rightarrow> int" where
  "add_sizes [] tot = tot"
| "add_sizes (dupe # rest) tot = add_sizes rest (tot + quotaBytesUsed dupe)"

fun report :: "drive_file list list \<Rightarrow> int \<times> event list \<Rightarrow> int \<times> event list" where
  "report [] st = st"
| "report (dupeset # rest) (tot, tr) =
     report rest (add_sizes (drop 1 dupeset) tot, print_dupeset dupeset (tr @ [Out ''--'']))"

text \<open>
  The trash loop (lines 113 to 119): state is the current batch (its
  \<^verbatim>\<open>_order\<close>, the ids added so far) and the trace. \<open>Inl\<close> is the state at which
  \<^verbatim>\<open>batch.execute()\<close> raised. The event \<open>BatchExecute b\<close> is a batch call
  made to the service with the requests \<open>b\<close>, whether it returned or raised.
\<close>

record state =
  batch :: "string list"
  trace :: "event list"

definition trash_dupe :: "(string list \<Rightarrow> response) \<Rightarrow> drive_file \<Rightarrow> state \<Rightarrow> state + state" where
  "trash_dupe remote dupe s =
     (let b = batch s @ [file_id dupe];
          tr = trace s @ [BatchAdd (file_id dupe)]
      in if length b = 1000 then
           (case execute remote b of
              None \<Rightarrow> Inr \<lparr>batch = [], trace = tr\<rparr>
            | Some BatchError \<Rightarrow> Inl \<lparr>batch = b, trace = tr @ [BatchExecute b]\<rparr>
            | Some (Completed _) \<Rightarrow> Inr \<lparr>batch = [], trace = tr @ [BatchExecute b]\<rparr>)
         else Inr \<lparr>batch = b, trace = tr\<rparr>)"

fun trash_dupeset :: "(string list \<Rightarrow> response) \<Rightarrow> drive_file list \<Rightarrow> state \<Rightarrow> state + state" where
  "trash_dupeset remote [] s = Inr s"
| "trash_dupeset remote (dupe # rest) s =
     (case trash_dupe remote dupe s of
        Inl s' \<Rightarrow> Inl s'
      | Inr s' \<Rightarrow> trash_dupeset remote rest s')"

fun trash_dupes :: "(string list \<Rightarrow> response) \<Rightarrow> drive_file list list \<Rightarrow> state \<Rightarrow> state + state" where
  "trash_dupes remote [] s = Inr s"
| "trash_dupes remote (dupeset # rest) s =
     (case trash_dupeset remote (drop 1 dupeset) s of
        Inl s' \<Rightarrow> Inl s'
      | Inr s' \<Rightarrow> trash_dupes remote rest s')"

text \<open>
  Lines 120 and 121, reached when the loop was not left by an exception: the last
  \<^verbatim>\<open>batch.execute()\<close>, on whatever the current batch holds, and the closing line.
\<close>

definition finish :: "(string list \<Rightarrow> response) \<Rightarrow> state + state \<Rightarrow> event list \<times> status" where
  "finish remote r =
     (case r of
        Inl s \<Rightarrow> (trace s, Raised)
      | Inr s \<Rightarrow>
          (case execute remote (batch s) of
             None \<Rightarrow> (trace s @ [Out ''We are done. Check the trash for your files.''], Returned)
           | Some BatchError \<Rightarrow> (trace s @ [BatchExecute (batch s)], Raised)
           | Some (Completed _) \<Rightarrow>
               (trace s @ [BatchExecute (batch s),
                           Out ''We are done. Check the trash for your files.''],
                Returned)))"

text \<open>
  Lines 96 to 123, from the duplicate sets on. \<open>conf\<close> is the line
  \<^verbatim>\<open>raw_input\<close> returns. \<open>OutWasted tot ONE_GIG\<close> stands for the line
  \<^verbatim>\<open>'{} Gigabytes wasted.'.format(total / ONE_GIG)\<close>: the event keeps the
  two operands of the floating-point division.
\<close>

definition main_body ::
  "drive_file list list \<Rightarrow> string \<Rightarrow> (string list \<Rightarrow> response) \<Rightarrow> event list \<times> status" where
  "main_body dupes conf remote =
     (let tr0 = [OutFound (length dupes)] in
      if length dupes = 0 then (tr0 @ [Out ''We are done.''], Returned)
      else
        let (tot, tr1) = report dupes (0, tr0 @ [Out ''Please check them.'']);
            tr2 = tr1 @ [Out ''--'', OutWasted tot ONE_GIG,
                         RawInput ''Great. Now trash the extras? (y/n) '']
        in if strip conf = ''y'' then
             finish remote
               (trash_dupes remote dupes \<lparr>batch = [], trace = tr2 @ [Out ''Trashing.'']\<rparr>)
           else (tr2 @ [Out ''Not touching anything.''], Returned))"

definition main ::
  "((string \<times> drive_file list) list \<Rightarrow> (string \<times> drive_file list) list) \<Rightarrow> drive_file list \<Rightarrow> string \<Rightarrow>
   (string list \<Rightarrow> response) \<Rightarrow> event list \<times> status" where
  "main items files conf remote = main_body (find_dupes items files) conf remote"

subsection \<open>Reading a trace\<close>

fun executed :: "event list \<Rightarrow> string list list" where
  "executed [] = []"
| "executed (BatchExecute b # es) = b # executed es"
| "executed (e # es) = executed es"

fun added :: "event list \<Rightarrow> string list" where
  "added [] = []"
| "added (BatchAdd i # es) = i # added es"
| "added (e # es) = added es"

fun is_trash :: "event \<Rightarrow> bool" where
  "is_trash (BatchAdd i) = True"
| "is_trash (BatchExecute b) = True"
| "is_trash e = False"

fun is_output :: "event \<Rightarrow> bool" where
  "is_output (RawInput p) = False"
| "is_output (BatchAdd i) = False"
| "is_output (BatchExecute b) = False"
| "is_output e = True"

text \<open>The ids of the members at index 1 and above of every set, in order.\<close>

definition removable_ids :: "drive_file list list \<Rightarrow> string list" where
  "removable_ids dupes = concat (map (\<lambda>dupeset. map file_id (drop 1 dupeset)) dupes)"

text \<open>
  Two functions to say what a run sends. \<open>chop n xs\<close> cuts \<open>xs\<close> into consecutive
  slices of \<open>n\<close> elements, the last one shorter when \<open>n\<close> does not divide the length;
  there is no empty slice. \<open>send_all remote bs\<close> makes the batch calls \<open>bs\<close> one after
  the other and stops at the first that raises: the calls made, and how the sequence ended.
\<close>

fun chop :: "nat \<Rightarrow> 'a list \<Rightarrow> 'a list list" where
  "chop n [] = []"
| "chop n (x # xs) =
     (if n = 0 then [] else take n (x # xs) # chop n (drop n (x # xs)))"

fun send_all :: "('r list \<Rightarrow> response) \<Rightarrow> 'r list list \<Rightarrow> 'r list list \<times> status" where
  "send_all remote [] = ([], Returned)"
| "send_all remote (b # bs) =
     (case remote b of
        BatchError \<Rightarrow> ([b], Raised)
      | Completed _ \<Rightarrow> (b # fst (send_all remote bs), snd (send_all remote bs)))"

subsection \<open>\<^verbatim>\<open>datefix.py\<close>\<close>

text \<open>
  One image of the listing. \<^verbatim>\<open>fmeta.get('imageMediaMetadata')\<close> is
  \<open>None\<close> when the key is absent; the listing asks for the
  \<^verbatim>\<open>date\<close> of the metadata only, so the dictionary is its optional
  \<^verbatim>\<open>date\<close>.
\<close>

record fmeta =
  fmeta_id :: string
  imageMediaMetadata :: "string option option"
  modifiedDate :: string

text \<open>\<^verbatim>\<open>client.files().patch(fileId=..., setModifiedDate=True,
  body={'modifiedDate': ...})\<close>: the file id and the date of the body.\<close>

datatype patch_request = FilesPatch string string

text \<open>
  \<^verbatim>\<open>chunks(l, n)\<close> yields \<^verbatim>\<open>l[i:i+n]\<close> for
  \<^verbatim>\<open>i in xrange(0, len(l), n)\<close>; \<^verbatim>\<open>xrange\<close> raises for a step
  of zero (\<open>None\<close>).
\<close>

definition xrange :: "nat \<Rightarrow> nat \<Rightarrow> nat list option" where
  "xrange stop step =
     (if step = 0 then None
      else Some (map (\<lambda>j. j * step) [0..<(stop + step - 1) div step]))"

definition chunks :: "'a list \<Rightarrow> nat \<Rightarrow> 'a list list option" where
  "chunks l n = map_option (map (\<lambda>i. take n (drop i l))) (xrange (length l) n)"

text \<open>
  The date type and its two library functions are parameters:
  \<open>strptime\<close> is \<^verbatim>\<open>datetime.strptime\<close> (\<open>None\<close> when it raises
  \<^verbatim>\<open>ValueError\<close>), \<open>isoformat\<close> is \<^verbatim>\<open>date.isoformat('T')\<close>.
\<close>

definition formatDate :: "('d \<Rightarrow> string) \<Rightarrow> 'd \<Rightarrow> string" where
  "formatDate isoformat date = isoformat date @ ''.0Z''"

definition parseDate :: "(string \<Rightarrow> string \<Rightarrow> 'd option) \<Rightarrow> string \<Rightarrow> 'd option" where
  "parseDate strptime timestamp = strptime timestamp ''%Y:%m:%d %H:%M:%S''"

text \<open>The body of the inner loop (lines 97 to 110): the request added for one image,
  \<open>None\<close> where the loop takes a \<^verbatim>\<open>continue\<close>.\<close>

definition patch_for ::
  "(string \<Rightarrow> string \<Rightarrow> 'd option) \<Rightarrow> ('d \<Rightarrow> string) \<Rightarrow> fmeta \<Rightarrow> patch_request option" where
  "patch_for strptime isoformat fm =
     (case imageMediaMetadata fm of
        None \<Rightarrow> None
      | Some None \<Rightarrow> None
      | Some (Some date) \<Rightarrow>
          if date = [] then None
          else
            (case parseDate strptime date of
               None \<Rightarrow> None
             | Some real_date \<Rightarrow>
                 if formatDate isoformat real_date = modifiedDate fm then None
                 else Some (FilesPatch (fmeta_id fm) (formatDate isoformat real_date))))"

fun fill_batch ::
  "(string \<Rightarrow> string \<Rightarrow> 'd option) \<Rightarrow> ('d \<Rightarrow> string) \<Rightarrow> fmeta list \<Rightarrow>
   patch_request list \<Rightarrow> patch_request list" where
  "fill_batch strptime isoformat [] b = b"
| "fill_batch strptime isoformat (fm # chunk) b =
     fill_batch strptime isoformat chunk
       (case patch_for strptime isoformat fm of None \<Rightarrow> b | Some req \<Rightarrow> b @ [req])"

text \<open>The outer loop: one \<^verbatim>\<open>batch.execute()\<close> per chunk; the result is the
  list of the batch calls made, up to and including one that raised. A chunk none of whose
  images needs a patch leaves the batch empty, and nothing is sent for it.\<close>

fun patch_chunks ::
  "(patch_request list \<Rightarrow> response) \<Rightarrow> (string \<Rightarrow> string \<Rightarrow> 'd option) \<Rightarrow> ('d \<Rightarrow> string) \<Rightarrow>
   fmeta list list \<Rightarrow> patch_request list list \<Rightarrow> patch_request list list \<times> status" where
  "patch_chunks remote strptime isoformat [] sent = (sent, Returned)"
| "patch_chunks remote strptime isoformat (chunk # rest) sent =
     (let b = fill_batch strptime isoformat chunk [] in
      case execute remote b of
        None \<Rightarrow> patch_chunks remote strptime isoformat rest sent
      | Some BatchError \<Rightarrow> (sent @ [b], Raised)
      | Some (Completed _) \<Rightarrow> patch_chunks remote strptime isoformat rest (sent @ [b]))"

definition batch_patch_dates ::
  "(patch_request list \<Rightarrow> response) \<Rightarrow> (string \<Rightarrow> string \<Rightarrow> 'd option) \<Rightarrow> ('d \<Rightarrow> string) \<Rightarrow>
   fmeta list \<Rightarrow> patch_request list list \<times> status" where
  "batch_patch_dates remote strptime isoformat files =
     (case chunks files 100 of
        None \<Rightarrow> ([], Raised)
      | Some cs \<Rightarrow> patch_chunks remote strptime isoformat cs [])"

subsection \<open>Concrete inputs\<close>

text \<open>The three records of the specification's scenario A, and three remotes: one on
  which every sub-request succeeds, one on which every sub-request fails, one on which the
  batch call itself raises.\<close>

definition rec1 :: drive_file where
  "rec1 = \<lparr>file_id = ''1'', md5Checksum = ''x'', title = ''a.jpg'',
           alternateLink = ''http://a'', quotaBytesUsed = 10\<rparr>"

definition rec2 :: drive_file where
  "rec2 = \<lparr>file_id = ''2'', md5Checksum = ''x'', title = ''b.jpg'',
           alternateLink = ''http://b'', quotaBytesUsed = 20\<rparr>"

definition rec3 :: drive_file where
  "rec3 = \<lparr>file_id = ''3'', md5Checksum = ''y'', title = ''c.jpg'',
           alternateLink = ''http://c'', quotaBytesUsed = 5\<rparr>"

definition remote_ok :: "'r list \<Rightarrow> response" where
  "remote_ok b = Completed (map (\<lambda>_. True) b)"

definition remote_failing :: "'r list \<Rightarrow> response" where
  "remote_failing b = Completed (map (\<lambda>_. False) b)"


text \<open>A duplicate set of 1001 copies with distinct ids: 1000 removable members.\<close>

definition copy_n :: "nat \<Rightarrow> drive_file" where
  "copy_n n = \<lparr>file_id = replicate n (CHR ''i''), md5Checksum = ''z'', title = ''copy'',
              alternateLink = ''http://z'', quotaBytesUsed = 1\<rparr>"

definition dupes_1000 :: "drive_file list list" where
  "dupes_1000 = [map copy_n [0..<1001]]"


text \<open>Three images, and a stand-in for the date library that parses one timestamp; a
  date is represented by its ISO form.\<close>

definition img1 :: fmeta where
  "img1 = \<lparr>fmeta_id = ''p1'', imageMediaMetadata = Some (Some ''2014:01:02 03:04:05''),
           modifiedDate = ''2015-06-07T08:09:10.000Z''\<rparr>"

definition img2 :: fmeta where
  "img2 = \<lparr>fmeta_id = ''p2'', imageMediaMetadata = None,
           modifiedDate = ''2015-06-07T08:09:10.000Z''\<rparr>"

definition img3 :: fmeta where
  "img3 = \<lparr>fmeta_id = ''p3'', imageMediaMetadata = Some (Some ''yesterday''),
           modifiedDate = ''2015-06-07T08:09:10.000Z''\<rparr>"


definition strptime1 :: "string \<Rightarrow> string \<Rightarrow> string option" where
  "strptime1 timestamp fmt =
     (if timestamp = ''2014:01:02 03:04:05'' then Some ''2014-01-02T03:04:05'' else None)"

definition isoformat1 :: "string \<Rightarrow> string" where
  "isoformat1 date = date"

section \<open>The trash loop\<close>

lemma executed_append: "executed (xs @ ys) = executed xs @ executed ys"
  by (induction xs rule: executed.induct) auto

lemma added_append: "added (xs @ ys) = added xs @ added ys"
  by (induction xs rule: added.induct) auto

lemma trash_dupeset_append:
  "trash_dupeset remote (xs @ ys) s =
     (case trash_dupeset remote xs s of Inl s' \<Rightarrow> Inl s' | Inr s' \<Rightarrow> trash_dupeset remote ys s')"
  by (induction xs arbitrary: s) (auto split: sum.splits)

lemma trash_dupes_flat:
  "trash_dupes remote dupes s = trash_dupeset remote (concat (map (drop 1) dupes)) s"
  by (induction dupes arbitrary: s) (auto simp: trash_dupeset_append split: sum.splits)

lemma removable_ids_flat: "removable_ids dupes = map file_id (concat (map (drop 1) dupes))"
  by (simp add: removable_ids_def map_concat comp_def)

lemma trash_dupe_full:
  assumes "remote (batch s @ [file_id f]) = Completed rs" "length (batch s) = 999"
  shows "trash_dupe remote f s =
           Inr \<lparr>batch = [], trace = trace s @ [BatchAdd (file_id f), BatchExecute (batch s @ [file_id f])]\<rparr>"
  using assms by (simp add: trash_dupe_def execute_def Let_def)

lemma trash_dupe_raise:
  assumes "remote (batch s @ [file_id f]) = BatchError" "length (batch s) = 999"
  shows "trash_dupe remote f s =
           Inl \<lparr>batch = batch s @ [file_id f],
                trace = trace s @ [BatchAdd (file_id f), BatchExecute (batch s @ [file_id f])]\<rparr>"
  using assms by (simp add: trash_dupe_def execute_def Let_def)

lemma trash_dupe_part:
  assumes "length (batch s) \<noteq> 999"
  shows "trash_dupe remote f s =
           Inr \<lparr>batch = batch s @ [file_id f], trace = trace s @ [BatchAdd (file_id f)]\<rparr>"
  using assms by (simp add: trash_dupe_def Let_def)

subsection \<open>Slices\<close>

lemma chop_unfold: "0 < n \<Longrightarrow> xs \<noteq> [] \<Longrightarrow> chop n xs = take n xs # chop n (drop n xs)"
  by (cases xs) simp_all

lemma chop_short:
  assumes "0 < n" "xs \<noteq> []" "length xs \<le> n"
  shows "chop n xs = [xs]"
proof -
  have "chop n xs = take n xs # chop n (drop n xs)" using assms(1,2) by (rule chop_unfold)
  also have "take n xs = xs" using assms(3) by simp
  also have "drop n xs = []" using assms(3) by simp
  finally show ?thesis by simp
qed

lemma chop_append_full:
  assumes "0 < n" "length b = n"
  shows "chop n (b @ xs) = b # chop n xs"
proof -
  have "b @ xs \<noteq> []" using assms by auto
  with assms(1) have "chop n (b @ xs) = take n (b @ xs) # chop n (drop n (b @ xs))"
    by (rule chop_unfold)
  then show ?thesis using assms(2) by simp
qed

lemma concat_chop: "0 < n \<Longrightarrow> concat (chop n xs) = xs"
proof (induction n xs rule: chop.induct)
  case (1 n)
  then show ?case by simp
next
  case (2 n x xs)
  have "concat (chop n (x # xs)) = take n (x # xs) @ concat (chop n (drop n (x # xs)))"
    using 2(2) by simp
  also have "concat (chop n (drop n (x # xs))) = drop n (x # xs)" using 2 by simp
  finally show ?case by (simp only: append_take_drop_id)
qed

lemma chop_lengths: "b \<in> set (chop n xs) \<Longrightarrow> b \<noteq> [] \<and> length b \<le> n"
proof (induction n xs rule: chop.induct)
  case (1 n)
  then show ?case by simp
next
  case (2 n x xs)
  show ?case
  proof (cases "n = 0")
    case True
    then show ?thesis using 2(2) by simp
  next
    case False
    then have "b = take n (x # xs) \<or> b \<in> set (chop n (drop n (x # xs)))"
      using 2(2) by simp
    then show ?thesis
    proof
      assume b: "b = take n (x # xs)"
      have "length (take n (x # xs)) \<noteq> 0" using False by (simp del: take_Cons_numeral)
      then have "take n (x # xs) \<noteq> []" by (simp only: length_0_conv not_False_eq_True)
      then show ?thesis unfolding b by simp
    next
      assume "b \<in> set (chop n (drop n (x # xs)))"
      then show ?thesis using 2(1)[OF False] by simp
    qed
  qed
qed




lemma chop_hd:
  assumes "0 < n" "xs \<noteq> []"
  shows "chop n xs \<noteq> []" "hd (chop n xs) = take n xs"
proof -
  have "chop n xs = take n xs # chop n (drop n xs)" using assms by (rule chop_unfold)
  then show "chop n xs \<noteq> []" "hd (chop n xs) = take n xs" by simp_all
qed

subsection \<open>Batch calls until one raises\<close>



lemma send_all_subset: "set (fst (send_all remote bs)) \<subseteq> set bs"
  by (induction bs) (auto split: response.splits)

lemma send_all_returned:
  "snd (send_all remote bs) = Returned \<Longrightarrow>
     fst (send_all remote bs) = bs \<and> (\<forall>b\<in>set bs. remote b \<noteq> BatchError)"
  by (induction bs) (auto split: response.splits)

lemma send_all_ok: "\<forall>b\<in>set bs. remote b \<noteq> BatchError \<Longrightarrow> send_all remote bs = (bs, Returned)"
  by (induction bs) (auto split: response.splits)


lemma send_all_hd:
  "bs \<noteq> [] \<Longrightarrow> fst (send_all remote bs) \<noteq> [] \<and> hd (fst (send_all remote bs)) = hd bs"
  by (cases bs) (auto split: response.splits)


subsection \<open>What the loop and the last call send\<close>

text \<open>From a state whose batch is not full, the loop over the remaining members followed by
  the last \<^verbatim>\<open>batch.execute()\<close> makes exactly the batch calls of the slices of 1000
  of the ids in the batch and the ids still to come, until one raises.\<close>

lemma trash_run:
  "length (batch s) < 1000 \<Longrightarrow>
   \<exists>ext. fst (finish remote (trash_dupeset remote fs s)) = trace s @ ext \<and>
     executed ext = fst (send_all remote (chop 1000 (batch s @ map file_id fs))) \<and>
     snd (finish remote (trash_dupeset remote fs s)) =
       snd (send_all remote (chop 1000 (batch s @ map file_id fs))) \<and>
     batch s @ added ext = concat (executed ext) \<and>
     (\<forall>e\<in>set ext. is_trash e \<or> is_output e) \<and>
     (snd (finish remote (trash_dupeset remote fs s)) = Returned \<longrightarrow>
        last (trace s @ ext) = Out ''We are done. Check the trash for your files.'')"
proof (induction fs arbitrary: s)
  case Nil
  show ?case
  proof (cases "batch s = []")
    case True
    then show ?thesis
      by (intro exI[of _ "[Out ''We are done. Check the trash for your files.'']"])
         (simp add: finish_def execute_def)
  next
    case False
    have c: "chop 1000 (batch s) = [batch s]"
      using False Nil.prems by (intro chop_short) simp_all
    show ?thesis
    proof (cases "remote (batch s)")
      case (Completed rs)
      show ?thesis
        by (intro exI[of _ "[BatchExecute (batch s),
                             Out ''We are done. Check the trash for your files.'']"])
           (simp add: finish_def execute_def False c Completed)
    next
      case BatchError
      show ?thesis
        by (intro exI[of _ "[BatchExecute (batch s)]"])
           (simp add: finish_def execute_def False c BatchError)
    qed
  qed
next
  case (Cons f fs)
  let ?b = "batch s @ [file_id f]"
  have ids: "batch s @ map file_id (f # fs) = ?b @ map file_id fs" by simp
  show ?case
  proof (cases "length (batch s) = 999")
    case True
    have len: "length ?b = 1000" using True by simp
    have c: "chop 1000 (?b @ map file_id fs) = ?b # chop 1000 (map file_id fs)"
      using len by (intro chop_append_full) simp_all
    show ?thesis
    proof (cases "remote ?b")
      case BatchError
      have step: "trash_dupeset remote (f # fs) s =
          Inl \<lparr>batch = ?b, trace = trace s @ [BatchAdd (file_id f), BatchExecute ?b]\<rparr>"
        using trash_dupe_raise[of remote s f] BatchError True by simp
      show ?thesis unfolding ids c step
        by (intro exI[of _ "[BatchAdd (file_id f), BatchExecute ?b]"])
           (simp add: finish_def BatchError)
    next
      case (Completed rs)
      let ?s1 = "\<lparr>batch = [], trace = trace s @ [BatchAdd (file_id f), BatchExecute ?b]\<rparr>"
      have step: "trash_dupeset remote (f # fs) s = trash_dupeset remote fs ?s1"
        using trash_dupe_full[of remote s f rs] Completed True by simp
      have "length (batch ?s1) < 1000" by simp
      from Cons.IH[OF this] obtain e2 where 2:
        "fst (finish remote (trash_dupeset remote fs ?s1)) = trace ?s1 @ e2"
        "executed e2 = fst (send_all remote (chop 1000 (map file_id fs)))"
        "snd (finish remote (trash_dupeset remote fs ?s1)) =
           snd (send_all remote (chop 1000 (map file_id fs)))"
        "added e2 = concat (executed e2)"
        "\<forall>e\<in>set e2. is_trash e \<or> is_output e"
        "snd (finish remote (trash_dupeset remote fs ?s1)) = Returned \<longrightarrow>
           last (trace ?s1 @ e2) = Out ''We are done. Check the trash for your files.''"
        by auto
      show ?thesis unfolding ids c step
        using 2
        by (intro exI[of _ "[BatchAdd (file_id f), BatchExecute ?b] @ e2"])
           (simp add: executed_append added_append Completed)
    qed
  next
    case False
    let ?s1 = "\<lparr>batch = ?b, trace = trace s @ [BatchAdd (file_id f)]\<rparr>"
    have step: "trash_dupeset remote (f # fs) s = trash_dupeset remote fs ?s1"
      using trash_dupe_part[of s remote f] False by simp
    have "length (batch ?s1) < 1000" using False Cons.prems by simp
    from Cons.IH[OF this] obtain e2 where 2:
      "fst (finish remote (trash_dupeset remote fs ?s1)) = trace ?s1 @ e2"
      "executed e2 = fst (send_all remote (chop 1000 (?b @ map file_id fs)))"
      "snd (finish remote (trash_dupeset remote fs ?s1)) =
         snd (send_all remote (chop 1000 (?b @ map file_id fs)))"
      "?b @ added e2 = concat (executed e2)"
      "\<forall>e\<in>set e2. is_trash e \<or> is_output e"
      "snd (finish remote (trash_dupeset remote fs ?s1)) = Returned \<longrightarrow>
         last (trace ?s1 @ e2) = Out ''We are done. Check the trash for your files.''"
      by auto
    show ?thesis unfolding ids step
      using 2 by (intro exI[of _ "BatchAdd (file_id f) # e2"]) simp
  qed
qed

section \<open>The reclaimable total\<close>

lemma add_sizes_sum: "add_sizes fs tot = tot + sum_list (map quotaBytesUsed fs)"
  by (induction fs arbitrary: tot) auto

lemma report_total:
  "fst (report dupes (tot, tr)) =
     tot + (\<Sum>dupeset\<leftarrow>dupes. \<Sum>f\<leftarrow>drop 1 dupeset. quotaBytesUsed f)"
  by (induction dupes arbitrary: tot tr) (auto simp: add_sizes_sum)

section \<open>The shape of a run\<close>

lemma output_not_trash: "is_output e \<Longrightarrow> \<not> is_trash e"
  by (cases e) auto

lemma executed_outputs: "\<forall>e\<in>set tr. is_output e \<Longrightarrow> executed tr = []"
  by (induction tr rule: executed.induct) auto

lemma added_outputs: "\<forall>e\<in>set tr. is_output e \<Longrightarrow> added tr = []"
  by (induction tr rule: added.induct) auto

lemma print_dupeset_trace:
  "\<exists>ext. print_dupeset ds tr = tr @ ext \<and> (\<forall>e\<in>set ext. is_output e)"
proof (induction ds arbitrary: tr)
  case Nil
  then show ?case by simp
next
  case (Cons d ds)
  obtain ext where "print_dupeset ds (tr @ [OutLink (alternateLink d) (title d)]) =
      (tr @ [OutLink (alternateLink d) (title d)]) @ ext" "\<forall>e\<in>set ext. is_output e"
    using Cons.IH by blast
  then have "print_dupeset (d # ds) tr = tr @ (OutLink (alternateLink d) (title d) # ext) \<and>
      (\<forall>e\<in>set (OutLink (alternateLink d) (title d) # ext). is_output e)"
    by simp
  then show ?case by blast
qed

lemma report_trace:
  "\<exists>ext. snd (report dupes (tot, tr)) = tr @ ext \<and> (\<forall>e\<in>set ext. is_output e)"
proof (induction dupes arbitrary: tot tr)
  case Nil
  then show ?case by simp
next
  case (Cons ds dupes)
  obtain e1 where 1: "print_dupeset ds (tr @ [Out ''--'']) = (tr @ [Out ''--'']) @ e1"
      "\<forall>e\<in>set e1. is_output e"
    using print_dupeset_trace by blast
  obtain e2 where 2: "snd (report dupes (add_sizes (drop 1 ds) tot, (tr @ [Out ''--'']) @ e1)) =
      ((tr @ [Out ''--'']) @ e1) @ e2" "\<forall>e\<in>set e2. is_output e"
    using Cons.IH by blast
  have "snd (report (ds # dupes) (tot, tr)) = tr @ (Out ''--'' # e1 @ e2) \<and>
      (\<forall>e\<in>set (Out ''--'' # e1 @ e2). is_output e)"
    using 1 2 by auto
  then show ?case by blast
qed

lemma main_body_empty: "main_body [] conf remote = ([OutFound 0, Out ''We are done.''], Returned)"
  by (simp add: main_body_def)

lemma main_body_decline:
  assumes "dupes \<noteq> []" "strip conf \<noteq> ''y''"
  shows "main_body dupes conf remote =
    (snd (report dupes (0, [OutFound (length dupes), Out ''Please check them.''])) @
       [Out ''--'',
        OutWasted (fst (report dupes (0, [OutFound (length dupes), Out ''Please check them.'']))) ONE_GIG,
        RawInput ''Great. Now trash the extras? (y/n) '',
        Out ''Not touching anything.''], Returned)"
  using assms by (simp add: main_body_def Let_def case_prod_beta)

lemma main_body_accept:
  assumes "dupes \<noteq> []" "strip conf = ''y''"
  shows "main_body dupes conf remote =
    finish remote (trash_dupes remote dupes
        \<lparr>batch = [],
         trace = snd (report dupes (0, [OutFound (length dupes), Out ''Please check them.''])) @
           [Out ''--'',
            OutWasted (fst (report dupes (0, [OutFound (length dupes), Out ''Please check them.'']))) ONE_GIG,
            RawInput ''Great. Now trash the extras? (y/n) '',
            Out ''Trashing.'']\<rparr>)"
  using assms by (simp add: main_body_def Let_def case_prod_beta)

lemma accepted_run:
  assumes ne: "dupes \<noteq> []" and y: "strip conf = ''y''"
  shows "\<exists>ext.
     fst (main_body dupes conf remote) =
       (snd (report dupes (0, [OutFound (length dupes), Out ''Please check them.''])) @
        [Out ''--'',
         OutWasted (fst (report dupes (0, [OutFound (length dupes), Out ''Please check them.'']))) ONE_GIG,
         RawInput ''Great. Now trash the extras? (y/n) '',
         Out ''Trashing.'']) @ ext \<and>
     executed ext = fst (send_all remote (chop 1000 (removable_ids dupes))) \<and>
     snd (main_body dupes conf remote) = snd (send_all remote (chop 1000 (removable_ids dupes))) \<and>
     added ext = concat (executed ext) \<and>
     (\<forall>e\<in>set ext. is_trash e \<or> is_output e) \<and>
     (snd (main_body dupes conf remote) = Returned \<longrightarrow>
        last (fst (main_body dupes conf remote)) =
          Out ''We are done. Check the trash for your files.'')"
proof -
  let ?R = "report dupes (0, [OutFound (length dupes), Out ''Please check them.''])"
  let ?h = "snd ?R @ [Out ''--'', OutWasted (fst ?R) ONE_GIG,
                      RawInput ''Great. Now trash the extras? (y/n) '', Out ''Trashing.'']"
  let ?s0 = "\<lparr>batch = [], trace = ?h\<rparr>"
  let ?fs = "concat (map (drop 1) dupes)"
  have m: "main_body dupes conf remote = finish remote (trash_dupeset remote ?fs ?s0)"
    unfolding main_body_accept[OF ne y] trash_dupes_flat ..
  have i: "batch ?s0 @ map file_id ?fs = removable_ids dupes"
    by (simp add: removable_ids_flat)
  have "length (batch ?s0) < 1000" by simp
  from trash_run[OF this, of remote ?fs]
  obtain ext where e:
    "fst (finish remote (trash_dupeset remote ?fs ?s0)) = trace ?s0 @ ext"
    "executed ext = fst (send_all remote (chop 1000 (batch ?s0 @ map file_id ?fs)))"
    "snd (finish remote (trash_dupeset remote ?fs ?s0)) =
       snd (send_all remote (chop 1000 (batch ?s0 @ map file_id ?fs)))"
    "batch ?s0 @ added ext = concat (executed ext)"
    "\<forall>e\<in>set ext. is_trash e \<or> is_output e"
    "snd (finish remote (trash_dupeset remote ?fs ?s0)) = Returned \<longrightarrow>
       last (trace ?s0 @ ext) = Out ''We are done. Check the trash for your files.''"
    by (elim exE conjE)
  have a: "fst (main_body dupes conf remote) = ?h @ ext" using e(1) unfolding m by simp
  have b: "executed ext = fst (send_all remote (chop 1000 (removable_ids dupes)))"
    using e(2) unfolding i .
  have c: "snd (main_body dupes conf remote) =
      snd (send_all remote (chop 1000 (removable_ids dupes)))"
    using e(3) unfolding i m .
  have d: "added ext = concat (executed ext)" using e(4) by simp
  have f: "snd (main_body dupes conf remote) = Returned \<longrightarrow>
        last (fst (main_body dupes conf remote)) =
          Out ''We are done. Check the trash for your files.''"
    using e(6) e(1) unfolding m by simp
  show ?thesis using a b c d e(5) f by (intro exI[of _ ext] conjI)
qed

text \<open>What a run that got the reply \<^verbatim>\<open>y\<close> sends, whatever the service does.\<close>

lemma sent_batches:
  assumes y: "strip conf = ''y''"
  shows "executed (fst (main_body dupes conf remote)) =
           fst (send_all remote (chop 1000 (removable_ids dupes)))"
    and "snd (main_body dupes conf remote) =
           snd (send_all remote (chop 1000 (removable_ids dupes)))"
    and "added (fst (main_body dupes conf remote)) =
           concat (executed (fst (main_body dupes conf remote)))"
proof -
  have "executed (fst (main_body dupes conf remote)) =
           fst (send_all remote (chop 1000 (removable_ids dupes))) \<and>
        snd (main_body dupes conf remote) =
           snd (send_all remote (chop 1000 (removable_ids dupes))) \<and>
        added (fst (main_body dupes conf remote)) =
           concat (executed (fst (main_body dupes conf remote)))"
  proof (cases "dupes = []")
    case True
    then show ?thesis by (simp add: main_body_empty removable_ids_def)
  next
    case False
    let ?R = "report dupes (0, [OutFound (length dupes), Out ''Please check them.''])"
    let ?h = "snd ?R @ [Out ''--'', OutWasted (fst ?R) ONE_GIG,
                        RawInput ''Great. Now trash the extras? (y/n) '', Out ''Trashing.'']"
    obtain e0 where e0: "snd ?R = [OutFound (length dupes), Out ''Please check them.''] @ e0"
        "\<forall>e\<in>set e0. is_output e"
      using report_trace by blast
    have h2: "executed ?h = []" using e0 by (simp add: executed_append executed_outputs)
    have h3: "added ?h = []" using e0 by (simp add: added_append added_outputs)
    from accepted_run[OF False y, of remote]
    obtain ext where e: "fst (main_body dupes conf remote) = ?h @ ext"
      "executed ext = fst (send_all remote (chop 1000 (removable_ids dupes)))"
      "snd (main_body dupes conf remote) = snd (send_all remote (chop 1000 (removable_ids dupes)))"
      "added ext = concat (executed ext)"
      by (elim exE conjE)
    have a: "executed (fst (main_body dupes conf remote)) = executed ext"
      unfolding e(1) using h2 by (simp only: executed_append append_Nil)
    have b: "added (fst (main_body dupes conf remote)) = added ext"
      unfolding e(1) using h3 by (simp only: added_append append_Nil)
    show ?thesis unfolding a b using e(2,3,4) by (intro conjI)
  qed
  then show "executed (fst (main_body dupes conf remote)) =
           fst (send_all remote (chop 1000 (removable_ids dupes)))"
    and "snd (main_body dupes conf remote) =
           snd (send_all remote (chop 1000 (removable_ids dupes)))"
    and "added (fst (main_body dupes conf remote)) =
           concat (executed (fst (main_body dupes conf remote)))"
    by simp_all
qed

lemma returned_last:
  assumes "dupes \<noteq> []" "strip conf = ''y''" "snd (main_body dupes conf remote) = Returned"
  shows "last (fst (main_body dupes conf remote)) =
           Out ''We are done. Check the trash for your files.''"
  using accepted_run[OF assms(1,2), of remote] assms(3) by blast

lemma sent_bounded:
  assumes "b \<in> set (fst (send_all remote (chop 1000 ids)))"
  shows "b \<noteq> []" "length b \<le> 1000"
proof -
  have "b \<in> set (chop 1000 ids)" using assms send_all_subset by blast
  then show "b \<noteq> []" "length b \<le> 1000" using chop_lengths by blast+
qed

lemma sent_first:
  assumes "ids \<noteq> []"
  shows "fst (send_all remote (chop 1000 ids)) \<noteq> []"
    and "hd (fst (send_all remote (chop 1000 ids))) = take 1000 ids"
    and "concat (fst (send_all remote (chop 1000 ids))) \<noteq> []"
proof -
  have c: "chop 1000 ids \<noteq> []" "hd (chop 1000 ids) = take 1000 ids"
    using assms by (simp_all add: chop_hd)
  from send_all_hd[OF c(1), of remote]
  have s: "fst (send_all remote (chop 1000 ids)) \<noteq> []"
    "hd (fst (send_all remote (chop 1000 ids))) = take 1000 ids"
    using c(2) by simp_all
  then show "fst (send_all remote (chop 1000 ids)) \<noteq> []"
    and "hd (fst (send_all remote (chop 1000 ids))) = take 1000 ids" .
  have "take 1000 ids \<noteq> []" using assms by simp
  then have "hd (fst (send_all remote (chop 1000 ids))) \<noteq> []" using s(2) by simp
  then show "concat (fst (send_all remote (chop 1000 ids))) \<noteq> []"
    using s(1) by (cases "fst (send_all remote (chop 1000 ids))") simp_all
qed

lemma accepted_shape:
  assumes ne: "dupes \<noteq> []" and y: "strip conf = ''y''"
  shows "\<exists>pre post.
     fst (main_body dupes conf remote) =
       pre @ [OutWasted (fst (report dupes (0, [OutFound (length dupes), Out ''Please check them.'']))) ONE_GIG,
              RawInput ''Great. Now trash the extras? (y/n) ''] @ post \<and>
     (\<forall>e\<in>set pre. is_output e) \<and> (\<forall>e\<in>set post. is_trash e \<or> is_output e) \<and>
     (\<forall>b\<in>set (executed post). length b \<le> 1000)"
proof -
  let ?R = "report dupes (0, [OutFound (length dupes), Out ''Please check them.''])"
  let ?W = "OutWasted (fst ?R) ONE_GIG"
  let ?P = "RawInput ''Great. Now trash the extras? (y/n) ''"
  let ?pre = "snd ?R @ [Out ''--'']"
  let ?h = "snd ?R @ [Out ''--'', ?W, ?P, Out ''Trashing.'']"
  obtain e0 where e0: "snd ?R = [OutFound (length dupes), Out ''Please check them.''] @ e0"
      "\<forall>e\<in>set e0. is_output e"
    using report_trace by blast
  have pre: "\<forall>e\<in>set ?pre. is_output e" using e0 by auto
  from accepted_run[OF ne y, of remote]
  obtain ext where e: "fst (main_body dupes conf remote) = ?h @ ext"
    "executed ext = fst (send_all remote (chop 1000 (removable_ids dupes)))"
    "\<forall>e\<in>set ext. is_trash e \<or> is_output e"
    by (elim exE conjE)
  let ?post = "Out ''Trashing.'' # ext"
  have a: "fst (main_body dupes conf remote) = ?pre @ [?W, ?P] @ ?post" using e(1) by simp
  have b: "\<forall>e\<in>set ?post. is_trash e \<or> is_output e" using e(3) by simp
  have c: "\<forall>b\<in>set (executed ?post). length b \<le> 1000"
    using e(2) sent_bounded(2)[of _ remote "removable_ids dupes"] by auto
  show ?thesis using a pre b c by (intro exI[of _ ?pre] exI[of _ ?post] conjI)
qed

lemma declined_shape:
  assumes ne: "dupes \<noteq> []" and n: "strip conf \<noteq> ''y''"
  shows "\<exists>pre.
     main_body dupes conf remote =
       (pre @ [OutWasted (fst (report dupes (0, [OutFound (length dupes), Out ''Please check them.'']))) ONE_GIG,
              RawInput ''Great. Now trash the extras? (y/n) ''] @ [Out ''Not touching anything.''],
        Returned) \<and>
     (\<forall>e\<in>set pre. is_output e)"
proof -
  let ?R = "report dupes (0, [OutFound (length dupes), Out ''Please check them.''])"
  let ?pre = "snd ?R @ [Out ''--'']"
  obtain e0 where e0: "snd ?R = [OutFound (length dupes), Out ''Please check them.''] @ e0"
      "\<forall>e\<in>set e0. is_output e"
    using report_trace by blast
  have pre: "\<forall>e\<in>set ?pre. is_output e" using e0 by auto
  show ?thesis
    unfolding main_body_decline[OF ne n] using pre by (intro exI[of _ ?pre]) simp
qed

lemma run_shape:
  assumes ne: "dupes \<noteq> []"
  shows "\<exists>pre post.
     fst (main_body dupes conf remote) =
       pre @ [OutWasted (fst (report dupes (0, [OutFound (length dupes), Out ''Please check them.'']))) ONE_GIG,
              RawInput ''Great. Now trash the extras? (y/n) ''] @ post \<and>
     (\<forall>e\<in>set pre. is_output e) \<and> (\<forall>e\<in>set post. is_trash e \<or> is_output e) \<and>
     (\<forall>b\<in>set (executed post). length b \<le> 1000)"
proof (cases "strip conf = ''y''")
  case True
  from accepted_shape[OF ne True, of remote] show ?thesis by blast
next
  case False
  from declined_shape[OF ne False, of remote]
  obtain pre where p: "main_body dupes conf remote =
       (pre @ [OutWasted (fst (report dupes (0, [OutFound (length dupes), Out ''Please check them.'']))) ONE_GIG,
              RawInput ''Great. Now trash the extras? (y/n) ''] @ [Out ''Not touching anything.''],
        Returned)" "\<forall>e\<in>set pre. is_output e" by blast
  show ?thesis
    using p by (intro exI[of _ pre] exI[of _ "[Out ''Not touching anything.'']"]) simp
qed

text \<open>In a list \<open>pre @ [a, b] @ post\<close>, an element that is in neither \<open>pre\<close> nor
  \<open>{a, b}\<close> comes after \<open>b\<close>, which comes after \<open>a\<close>.\<close>

lemma after_pair:
  assumes tr: "tr = pre @ [a, b] @ post" and pre: "\<forall>e\<in>set pre. \<not> Q e" and "\<not> Q a" "\<not> Q b"
    and i: "i < length tr" "Q (tr ! i)"
  shows "\<exists>j k. j < k \<and> k < i \<and> tr ! j = a \<and> tr ! k = b"
proof -
  have "\<not> i < length pre"
  proof
    assume "i < length pre"
    then have "tr ! i \<in> set pre" using tr by (simp add: nth_append)
    then show False using pre i(2) by blast
  qed
  moreover have "i \<noteq> length pre" using tr i(2) assms(3) by (auto simp: nth_append)
  moreover have "i \<noteq> Suc (length pre)" using tr i(2) assms(4) by (auto simp: nth_append)
  ultimately have "Suc (length pre) < i" by arith
  moreover have "tr ! length pre = a" using tr by (simp add: nth_append)
  moreover have "tr ! Suc (length pre) = b" using tr by (simp add: nth_append)
  ultimately show ?thesis by (intro exI[of _ "length pre"] exI[of _ "Suc (length pre)"]) simp
qed

lemma after_first:
  assumes tr: "tr = pre @ [a, b] @ post" and pre: "\<forall>e\<in>set pre. \<not> Q e" and "\<not> Q a"
    and i: "i < length tr" "Q (tr ! i)"
  shows "\<exists>j<i. tr ! j = a"
proof -
  have "\<not> i < length pre"
  proof
    assume "i < length pre"
    then have "tr ! i \<in> set pre" using tr by (simp add: nth_append)
    then show False using pre i(2) by blast
  qed
  moreover have "i \<noteq> length pre" using tr i(2) assms(3) by (auto simp: nth_append)
  ultimately have "length pre < i" by arith
  moreover have "tr ! length pre = a" using tr by (simp add: nth_append)
  ultimately show ?thesis by blast
qed

section \<open>What the report counts\<close>

lemma drop_one_nth: "drop 1 ds = map (\<lambda>i. ds ! i) [1..<length ds]"
  by (rule nth_equalityI) auto

lemma take_drop_sizes:
  "(\<Sum>f\<leftarrow>take 1 ds. quotaBytesUsed f) + (\<Sum>f\<leftarrow>drop 1 ds. quotaBytesUsed f) =
   (\<Sum>f\<leftarrow>ds. quotaBytesUsed f)"
  by (cases ds) auto

lemma heads_and_extras:
  "(\<Sum>ds\<leftarrow>dupes. \<Sum>f\<leftarrow>drop 1 ds. quotaBytesUsed f) + (\<Sum>ds\<leftarrow>dupes. \<Sum>f\<leftarrow>take 1 ds. quotaBytesUsed f) =
   (\<Sum>ds\<leftarrow>dupes. \<Sum>f\<leftarrow>ds. quotaBytesUsed f)"
proof (induction dupes)
  case Nil
  then show ?case by simp
next
  case (Cons ds dupes)
  show ?case using Cons.IH take_drop_sizes[of ds] by simp
qed

lemma wasted_in_trace:
  assumes "dupes \<noteq> []"
  shows "OutWasted (fst (report dupes (0, [OutFound (length dupes), Out ''Please check them.'']))) ONE_GIG
           \<in> set (fst (main_body dupes conf remote))"
proof -
  from run_shape[OF assms, of conf remote] obtain pre post where
    "fst (main_body dupes conf remote) =
       pre @ [OutWasted (fst (report dupes (0, [OutFound (length dupes), Out ''Please check them.'']))) ONE_GIG,
              RawInput ''Great. Now trash the extras? (y/n) ''] @ post" by blast
  then show ?thesis by simp
qed

lemma scenario_run:
  "main_body [[rec1, rec2]] ''y'' remote_ok =
     ([OutFound 1, Out ''Please check them.'', Out ''--'', OutLink ''http://a'' ''a.jpg'',
       OutLink ''http://b'' ''b.jpg'', Out ''--'', OutWasted 20 ONE_GIG,
       RawInput ''Great. Now trash the extras? (y/n) '', Out ''Trashing.'', BatchAdd ''2'',
       BatchExecute [''2''], Out ''We are done. Check the trash for your files.''], Returned)"
  by (simp add: main_body_def finish_def execute_def Let_def strip_def isspace_def
      trash_dupe_def rec1_def rec2_def remote_ok_def)

text \<open>
  C6. For every sequence of duplicate sets the total the report loop computes is the sum of
  \<open>quotaBytesUsed\<close> over the members at index 1 and above of every set; together with
  the sizes of the index-0 members it makes up the size of all members, so no
  representative is counted; and that total is the one the run prints.
\<close>

theorem reclaimable_total:
  "fst (report dupes (0, tr)) =
     (\<Sum>dupeset\<leftarrow>dupes. \<Sum>i\<leftarrow>[1..<length dupeset]. quotaBytesUsed (dupeset ! i)) \<and>
   fst (report dupes (0, tr)) + (\<Sum>dupeset\<leftarrow>dupes. \<Sum>f\<leftarrow>take 1 dupeset. quotaBytesUsed f) =
     (\<Sum>dupeset\<leftarrow>dupes. \<Sum>f\<leftarrow>dupeset. quotaBytesUsed f) \<and>
   (dupes \<noteq> [] \<longrightarrow>
      OutWasted (\<Sum>dupeset\<leftarrow>dupes. \<Sum>i\<leftarrow>[1..<length dupeset]. quotaBytesUsed (dupeset ! i)) ONE_GIG
        \<in> set (fst (main_body dupes conf remote)))"
proof -
  have eq: "\<And>t. fst (report dupes (0, t)) =
      (\<Sum>dupeset\<leftarrow>dupes. \<Sum>i\<leftarrow>[1..<length dupeset]. quotaBytesUsed (dupeset ! i))"
  proof -
    fix t
    have e: "(\<lambda>ds::drive_file list. \<Sum>f\<leftarrow>drop 1 ds. quotaBytesUsed f) =
             (\<lambda>ds. \<Sum>i\<leftarrow>[1..<length ds]. quotaBytesUsed (ds ! i))"
    proof (rule ext)
      fix ds :: "drive_file list"
      show "(\<Sum>f\<leftarrow>drop 1 ds. quotaBytesUsed f) = (\<Sum>i\<leftarrow>[1..<length ds]. quotaBytesUsed (ds ! i))"
        by (subst drop_one_nth) (simp only: map_map comp_def)
    qed
    show "fst (report dupes (0, t)) =
      (\<Sum>dupeset\<leftarrow>dupes. \<Sum>i\<leftarrow>[1..<length dupeset]. quotaBytesUsed (dupeset ! i))"
      unfolding report_total e by simp
  qed
  have "fst (report dupes (0, tr)) + (\<Sum>dupeset\<leftarrow>dupes. \<Sum>f\<leftarrow>take 1 dupeset. quotaBytesUsed f) =
     (\<Sum>dupeset\<leftarrow>dupes. \<Sum>f\<leftarrow>dupeset. quotaBytesUsed f)"
    using heads_and_extras[of dupes] by (simp add: report_total)
  moreover have "dupes \<noteq> [] \<longrightarrow>
      OutWasted (\<Sum>dupeset\<leftarrow>dupes. \<Sum>i\<leftarrow>[1..<length dupeset]. quotaBytesUsed (dupeset ! i)) ONE_GIG
        \<in> set (fst (main_body dupes conf remote))"
    using wasted_in_trace[of dupes conf remote] eq by simp
  ultimately show ?thesis using eq by blast
qed

theorem reclaimable_total_witness:
  "fst (report [[rec1, rec2]] (0, [])) = 20 \<and> [[rec1, rec2]] \<noteq> [] \<and>
   OutWasted 20 ONE_GIG \<in> set (fst (main_body [[rec1, rec2]] ''y'' remote_ok))"
  using reclaimable_total[of "[[rec1, rec2]]" "[]" "''y''" remote_ok]
  by (simp add: rec1_def rec2_def)

section \<open>Report, confirmation, removal: the order of events\<close>

lemma output_not_prompt: "is_output e \<Longrightarrow> \<not> (\<exists>p. e = RawInput p)"
  by (cases e) auto

text \<open>
  C4. In every run the divisor of the gigabyte figure is \<open>2 ^ 30\<close>; every trash event
  (a request added to a batch, a batch executed) comes after the confirmation prompt, which
  comes after the line that reports the complete reclaimable total; and every prompt comes
  after that line.
\<close>

theorem report_before_confirm_before_trash:
  "ONE_GIG = 2 ^ 30 \<and>
   (\<forall>i<length (fst (main_body dupes conf remote)).
      is_trash (fst (main_body dupes conf remote) ! i) \<longrightarrow>
      (\<exists>j k. j < k \<and> k < i \<and>
         fst (main_body dupes conf remote) ! j =
           OutWasted (\<Sum>dupeset\<leftarrow>dupes. \<Sum>f\<leftarrow>drop 1 dupeset. quotaBytesUsed f) ONE_GIG \<and>
         fst (main_body dupes conf remote) ! k = RawInput ''Great. Now trash the extras? (y/n) '')) \<and>
   (\<forall>k<length (fst (main_body dupes conf remote)).
      (\<exists>p. fst (main_body dupes conf remote) ! k = RawInput p) \<longrightarrow>
      (\<exists>j<k. fst (main_body dupes conf remote) ! j =
           OutWasted (\<Sum>dupeset\<leftarrow>dupes. \<Sum>f\<leftarrow>drop 1 dupeset. quotaBytesUsed f) ONE_GIG))"
proof (cases "dupes = []")
  case True
  have tr: "fst (main_body dupes conf remote) = [OutFound 0, Out ''We are done.'']"
    using True by (simp add: main_body_empty)
  have "\<And>i. i < 2 \<Longrightarrow> \<not> is_trash ([OutFound 0, Out ''We are done.''] ! i)"
    by (auto simp: less_Suc_eq numeral_2_eq_2)
  moreover have "\<And>i p. i < 2 \<Longrightarrow> [OutFound 0, Out ''We are done.''] ! i \<noteq> RawInput p"
    by (auto simp: less_Suc_eq numeral_2_eq_2)
  ultimately show ?thesis unfolding tr by (auto simp: ONE_GIG_def)
next
  case False
  let ?tr = "fst (main_body dupes conf remote)"
  let ?W = "OutWasted (\<Sum>dupeset\<leftarrow>dupes. \<Sum>f\<leftarrow>drop 1 dupeset. quotaBytesUsed f) ONE_GIG"
  let ?P = "RawInput ''Great. Now trash the extras? (y/n) ''"
  from run_shape[OF False, of conf remote]
  obtain pre post where s: "?tr = pre @ [?W, ?P] @ post" "\<forall>e\<in>set pre. is_output e"
    by (auto simp: report_total)
  have np: "\<forall>e\<in>set pre. \<not> is_trash e" using s(2) output_not_trash by blast
  have nq: "\<forall>e\<in>set pre. \<not> (\<exists>p. e = RawInput p)" using s(2) output_not_prompt by blast
  have a: "\<forall>i<length ?tr. is_trash (?tr ! i) \<longrightarrow>
      (\<exists>j k. j < k \<and> k < i \<and> ?tr ! j = ?W \<and> ?tr ! k = ?P)"
  proof (intro allI impI)
    fix i assume "i < length ?tr" "is_trash (?tr ! i)"
    then show "\<exists>j k. j < k \<and> k < i \<and> ?tr ! j = ?W \<and> ?tr ! k = ?P"
      using after_pair[of ?tr pre ?W ?P post is_trash i] s(1) np by simp
  qed
  have b: "\<forall>k<length ?tr. (\<exists>p. ?tr ! k = RawInput p) \<longrightarrow> (\<exists>j<k. ?tr ! j = ?W)"
  proof (intro allI impI)
    fix k assume "k < length ?tr" "\<exists>p. ?tr ! k = RawInput p"
    then show "\<exists>j<k. ?tr ! j = ?W"
      using after_first[of ?tr pre ?W ?P post "\<lambda>e. \<exists>p. e = RawInput p" k] s(1) nq by simp
  qed
  have "ONE_GIG = 2 ^ 30" by (simp add: ONE_GIG_def)
  then show ?thesis using a b by blast
qed

theorem report_before_confirm_before_trash_witness:
  "is_trash (fst (main_body [[rec1, rec2]] ''y'' remote_ok) ! 9) \<and>
   (\<exists>j k. j < k \<and> k < 9 \<and>
      fst (main_body [[rec1, rec2]] ''y'' remote_ok) ! j = OutWasted 20 ONE_GIG \<and>
      fst (main_body [[rec1, rec2]] ''y'' remote_ok) ! k =
        RawInput ''Great. Now trash the extras? (y/n) '') \<and>
   (\<exists>j<7. fst (main_body [[rec1, rec2]] ''y'' remote_ok) ! j = OutWasted 20 ONE_GIG)"
proof -
  have t: "is_trash (fst (main_body [[rec1, rec2]] ''y'' remote_ok) ! 9)"
    by (simp add: scenario_run)
  have p: "fst (main_body [[rec1, rec2]] ''y'' remote_ok) ! 7 =
      RawInput ''Great. Now trash the extras? (y/n) ''"
    by (simp add: scenario_run)
  have l: "(9::nat) < length (fst (main_body [[rec1, rec2]] ''y'' remote_ok))"
       "(7::nat) < length (fst (main_body [[rec1, rec2]] ''y'' remote_ok))"
    by (simp_all add: scenario_run)
  have v: "(\<Sum>dupeset\<leftarrow>[[rec1, rec2]]. \<Sum>f\<leftarrow>drop 1 dupeset. quotaBytesUsed f) = 20"
    by (simp add: rec2_def)
  show ?thesis
    using report_before_confirm_before_trash[of "[[rec1, rec2]]" "''y''" remote_ok] t p l
    unfolding v by blast
qed

section \<open>No duplicates\<close>

lemma scenario_b_dupes: "find_dupes (\<lambda>index. index) [rec1, rec3] = []"
  by (simp add: find_dupes_def rec1_def rec3_def)

text \<open>
  C7 as stated fails: on an input with no shared fingerprint the run prints the count and
  \<^verbatim>\<open>We are done.\<close> and returns before the total is computed, so no
  reclaimable-byte line is printed, not even one reporting 0.
\<close>

theorem empty_result_counterexample:
  "find_dupes (\<lambda>index. index) [rec1, rec3] = [] \<and>
   OutWasted 0 ONE_GIG \<notin> set (fst (main (\<lambda>index. index) [rec1, rec3] ''y'' remote_ok))"
  by (simp add: main_def scenario_b_dupes main_body_empty)

text \<open>
  C7, amended. For every input that yields zero duplicate sets the run is exactly: print
  the zero count, print \<^verbatim>\<open>We are done.\<close>, return. Whatever the reply and the
  remote would be, there is no prompt, no request, no batch call, and no reclaimable-byte
  line.
\<close>

theorem empty_result:
  assumes "find_dupes items files = []"
  shows "main items files conf remote = ([OutFound 0, Out ''We are done.''], Returned)"
  using assms by (simp add: main_def main_body_empty)

theorem empty_result_witness:
  "find_dupes (\<lambda>index. index) [rec1, rec3] = [] \<and>
   main (\<lambda>index. index) [rec1, rec3] ''y'' remote_failing =
     ([OutFound 0, Out ''We are done.''], Returned)"
  using empty_result[of "\<lambda>index. index" "[rec1, rec3]" "''y''" remote_failing] scenario_b_dupes
  by simp

section \<open>The confirmation gate\<close>

lemma collect_dupes_eq:
  "collect_dupes index dupes = dupes @ map snd (filter (\<lambda>kv. length (snd kv) > 1) index)"
  by (induction index arbitrary: dupes) auto

lemma find_dupes_eq:
  "find_dupes items files =
     map snd (filter (\<lambda>kv. length (snd kv) > 1) (items (build_index files [])))"
  by (simp add: find_dupes_def collect_dupes_eq)

lemma find_dupes_long: "dupeset \<in> set (find_dupes items files) \<Longrightarrow> length dupeset > 1"
  by (auto simp: find_dupes_eq)

lemma removable_nonempty:
  assumes "dupes \<noteq> []" "\<forall>dupeset\<in>set dupes. length dupeset > 1"
  shows "removable_ids dupes \<noteq> []"
proof -
  obtain ds rest where d: "dupes = ds # rest" using assms(1) by (cases dupes) auto
  then have "length ds > 1" using assms(2) by simp
  then have "drop 1 ds \<noteq> []" by simp
  then show ?thesis using d by (simp add: removable_ids_def)
qed

lemma declined_no_trash:
  assumes "dupes \<noteq> []" "strip conf \<noteq> ''y''"
  shows "added (fst (main_body dupes conf remote)) = [] \<and>
         executed (fst (main_body dupes conf remote)) = [] \<and>
         (\<forall>e\<in>set (fst (main_body dupes conf remote)). \<not> is_trash e) \<and>
         snd (main_body dupes conf remote) = Returned \<and>
         last (fst (main_body dupes conf remote)) = Out ''Not touching anything.''"
proof -
  from declined_shape[OF assms, of remote] obtain pre where
    p: "main_body dupes conf remote =
       (pre @ [OutWasted (fst (report dupes (0, [OutFound (length dupes), Out ''Please check them.'']))) ONE_GIG,
              RawInput ''Great. Now trash the extras? (y/n) ''] @ [Out ''Not touching anything.''],
        Returned)" "\<forall>e\<in>set pre. is_output e" by blast
  have "added pre = []" "executed pre = []" "\<forall>e\<in>set pre. \<not> is_trash e"
    using p(2) by (auto simp: added_outputs executed_outputs dest: output_not_trash)
  then show ?thesis unfolding p(1) by (auto simp: added_append executed_append)
qed

lemma scenario_dupes: "find_dupes (\<lambda>index. index) [rec1, rec2, rec3] = [[rec1, rec2]]"
  by (simp add: find_dupes_def rec1_def rec2_def rec3_def)

lemma strip_y: "strip ''y'' = ''y''"
  by (simp add: strip_def isspace_def)

lemma scenario_removable: "removable_ids (find_dupes (\<lambda>index. index) [rec1, rec2, rec3]) = [''2'']"
  unfolding scenario_dupes by (simp add: removable_ids_def rec2_def)

text \<open>
  C9. Whenever the prompt is reached (the input has a duplicate set), trash requests are
  added to a batch, and a batch call carrying trash requests is made to the service, if and
  only if the reply, stripped of surrounding whitespace, is the string \<open>''y''\<close>. On that
  reply the first batch call carries the first 1000 removable ids (all of them when there
  are fewer), every request added is in a batch call, and when the run returns the batch
  calls carry exactly the removable ids. For any other reply the trace has no request and
  no batch call, the run returns normally and its last line is
  \<^verbatim>\<open>Not touching anything.\<close>. The replies \<open>''Y''\<close>, \<open>''yes''\<close> and the empty line
  are such other replies.
\<close>

theorem confirmation_gate:
  assumes "find_dupes items files \<noteq> []"
  shows "(added (fst (main items files conf remote)) \<noteq> [] \<longleftrightarrow> strip conf = ''y'') \<and>
         (concat (executed (fst (main items files conf remote))) \<noteq> [] \<longleftrightarrow> strip conf = ''y'') \<and>
         (strip conf = ''y'' \<longrightarrow>
            hd (executed (fst (main items files conf remote))) =
              take 1000 (removable_ids (find_dupes items files)) \<and>
            added (fst (main items files conf remote)) =
              concat (executed (fst (main items files conf remote))) \<and>
            (snd (main items files conf remote) = Returned \<longrightarrow>
               concat (executed (fst (main items files conf remote))) =
                 removable_ids (find_dupes items files))) \<and>
         (strip conf \<noteq> ''y'' \<longrightarrow>
            (\<forall>e\<in>set (fst (main items files conf remote)). \<not> is_trash e) \<and>
            snd (main items files conf remote) = Returned \<and>
            last (fst (main items files conf remote)) = Out ''Not touching anything.'') \<and>
         strip ''Y'' \<noteq> ''y'' \<and> strip ''yes'' \<noteq> ''y'' \<and> strip [] \<noteq> ''y''"
proof -
  let ?dupes = "find_dupes items files"
  let ?ids = "removable_ids ?dupes"
  let ?tr = "fst (main_body ?dupes conf remote)"
  let ?sent = "fst (send_all remote (chop 1000 ?ids))"
  have r: "?ids \<noteq> []"
    using removable_nonempty[OF assms] find_dupes_long by blast
  have y: "added ?tr = concat (executed ?tr) \<and>
           concat (executed ?tr) \<noteq> [] \<and> added ?tr \<noteq> [] \<and> hd (executed ?tr) = take 1000 ?ids \<and>
           (snd (main_body ?dupes conf remote) = Returned \<longrightarrow> concat (executed ?tr) = ?ids)"
    if c: "strip conf = ''y''"
  proof -
    have e: "executed ?tr = ?sent" using c by (rule sent_batches(1))
    have a: "added ?tr = concat (executed ?tr)" using c by (rule sent_batches(3))
    have s: "snd (main_body ?dupes conf remote) = snd (send_all remote (chop 1000 ?ids))"
      using c by (rule sent_batches(2))
    have n: "concat ?sent \<noteq> []" using r by (rule sent_first(3))
    have h: "hd ?sent = take 1000 ?ids" using r by (rule sent_first(2))
    have t: "concat (executed ?tr) = ?ids" if "snd (main_body ?dupes conf remote) = Returned"
    proof -
      have "snd (send_all remote (chop 1000 ?ids)) = Returned" using that s by simp
      then have "?sent = chop 1000 ?ids" using send_all_returned by blast
      then show ?thesis unfolding e by (simp add: concat_chop)
    qed
    have n': "concat (executed ?tr) \<noteq> []" using n unfolding e .
    have h': "hd (executed ?tr) = take 1000 ?ids" using h unfolding e .
    have a': "added ?tr \<noteq> []" using n' unfolding a .
    show ?thesis using a n' a' h' t by (intro conjI impI)
  qed
  have b: "added ?tr = [] \<and> executed ?tr = [] \<and> (\<forall>e\<in>set ?tr. \<not> is_trash e) \<and>
      snd (main_body ?dupes conf remote) = Returned \<and>
      last ?tr = Out ''Not touching anything.''"
    if "strip conf \<noteq> ''y''"
    using declined_no_trash[OF assms that, of remote] .
  have c: "strip ''Y'' \<noteq> ''y'' \<and> strip ''yes'' \<noteq> ''y'' \<and> strip [] \<noteq> ''y''"
    by (simp add: strip_def isspace_def)
  show ?thesis
  proof (cases "strip conf = ''y''")
    case True
    show ?thesis unfolding main_def using y[OF True] True c by blast
  next
    case False
    show ?thesis unfolding main_def using b[OF False] False c by auto
  qed
qed

theorem confirmation_gate_witness:
  "find_dupes (\<lambda>index. index) [rec1, rec2, rec3] \<noteq> [] \<and>
   strip '' y '' = ''y'' \<and>
   added (fst (main (\<lambda>index. index) [rec1, rec2, rec3] '' y '' remote_ok)) \<noteq> [] \<and>
   hd (executed (fst (main (\<lambda>index. index) [rec1, rec2, rec3] '' y '' remote_ok))) = [''2''] \<and>
   strip ''n'' \<noteq> ''y'' \<and>
   last (fst (main (\<lambda>index. index) [rec1, rec2, rec3] ''n'' remote_ok)) =
     Out ''Not touching anything.''"
proof -
  have d: "find_dupes (\<lambda>index. index) [rec1, rec2, rec3] \<noteq> []"
    by (simp add: scenario_dupes)
  have y: "strip '' y '' = ''y''" and n: "strip ''n'' \<noteq> ''y''"
    by (simp_all add: strip_def isspace_def)
  show ?thesis
    using confirmation_gate[OF d, of "'' y ''" remote_ok]
          confirmation_gate[OF d, of "''n''" remote_ok] d y n
    unfolding scenario_removable by simp
qed

section \<open>Batches\<close>

lemma removable_1000: "length (removable_ids dupes_1000) = 1000"
  by (simp add: removable_ids_def dupes_1000_def)


lemma remote_ok_completes: "\<forall>b. remote_ok b \<noteq> BatchError"
  by (simp add: remote_ok_def)

lemma remote_failing_completes: "\<forall>b. remote_failing b \<noteq> BatchError"
  by (simp add: remote_failing_def)

lemma dupes_1000_batches:
  "executed (fst (main_body dupes_1000 ''y'' remote_ok)) = [removable_ids dupes_1000]"
proof -
  have n: "removable_ids dupes_1000 \<noteq> []" using removable_1000 by auto
  have c: "chop 1000 (removable_ids dupes_1000) = [removable_ids dupes_1000]"
    using n removable_1000 by (intro chop_short) simp_all
  have "send_all remote_ok (chop 1000 (removable_ids dupes_1000)) =
      (chop 1000 (removable_ids dupes_1000), Returned)"
    by (rule send_all_ok) (simp add: remote_ok_def)
  then show ?thesis unfolding sent_batches(1)[OF strip_y] c by simp
qed





section \<open>Every extra once, no representative\<close>












section \<open>Failures inside a batch\<close>

lemma trash_dupe_remote_irrelevant:
  assumes "\<forall>b. remote b \<noteq> BatchError" "\<forall>b. remote' b \<noteq> BatchError"
  shows "trash_dupe remote f s = trash_dupe remote' f s"
proof -
  obtain rs rs' where "remote (batch s @ [file_id f]) = Completed rs"
      "remote' (batch s @ [file_id f]) = Completed rs'"
    using assms by (meson response.exhaust)
  then show ?thesis by (simp add: trash_dupe_def execute_def Let_def)
qed

lemma trash_dupeset_remote_irrelevant:
  assumes "\<forall>b. remote b \<noteq> BatchError" "\<forall>b. remote' b \<noteq> BatchError"
  shows "trash_dupeset remote fs s = trash_dupeset remote' fs s"
  by (induction fs arbitrary: s)
     (simp_all add: trash_dupe_remote_irrelevant[OF assms] split: sum.splits)

lemma main_body_remote_irrelevant:
  assumes "dupes \<noteq> []" "strip conf = ''y''"
    and ok: "\<forall>b. remote b \<noteq> BatchError" and ok': "\<forall>b. remote' b \<noteq> BatchError"
  shows "main_body dupes conf remote = main_body dupes conf remote'"
proof -
  have l: "\<And>s. trash_dupes remote dupes s = trash_dupes remote' dupes s"
    by (simp add: trash_dupes_flat trash_dupeset_remote_irrelevant[OF ok ok'])
  have f: "finish remote r = finish remote' r" for r
  proof (cases r)
    case (Inl s)
    then show ?thesis by (simp add: finish_def)
  next
    case (Inr s)
    obtain rs rs' where "remote (batch s) = Completed rs" "remote' (batch s) = Completed rs'"
      using ok ok' by (meson response.exhaust)
    then show ?thesis using Inr by (simp add: finish_def execute_def)
  qed
  show ?thesis
    unfolding main_body_accept[OF assms(1,2)] l by (rule f)
qed

text \<open>
  C3 as stated fails: the script registers no callback and drops what
  \<^verbatim>\<open>batch.execute()\<close> returns, so a run in which the sub-operation fails has the
  same trace and the same result as one in which it succeeds. No count and no failure
  identifier is surfaced.
\<close>

theorem partial_failure_counterexample:
  "remote_failing [''2''] = Completed [False] \<and> remote_ok [''2''] = Completed [True] \<and>
   main_body [[rec1, rec2]] ''y'' remote_failing = main_body [[rec1, rec2]] ''y'' remote_ok \<and>
   last (fst (main_body [[rec1, rec2]] ''y'' remote_failing)) =
     Out ''We are done. Check the trash for your files.''"
proof -
  have "main_body [[rec1, rec2]] ''y'' remote_failing = main_body [[rec1, rec2]] ''y'' remote_ok"
    by (rule main_body_remote_irrelevant)
       (simp_all add: strip_y remote_ok_completes remote_failing_completes)
  then show ?thesis by (simp add: scenario_run remote_ok_def remote_failing_def)
qed

text \<open>
  C3, amended. When sub-operations fail inside batches whose calls return, the run is the
  one it would be had they succeeded: every removable id is still submitted, in the same
  batches, every later batch is still executed, and the run returns after the fixed closing
  line. The outcome of a sub-operation has no effect on the trace or the result, so no
  counts and no failure identifiers are reported.
\<close>

theorem partial_failure_unreported:
  assumes "dupes \<noteq> []" "strip conf = ''y''"
    and "\<forall>b. remote b \<noteq> BatchError" and "\<forall>b. remote' b \<noteq> BatchError"
  shows "main_body dupes conf remote = main_body dupes conf remote' \<and>
         snd (main_body dupes conf remote) = Returned \<and>
         concat (executed (fst (main_body dupes conf remote))) = removable_ids dupes \<and>
         last (fst (main_body dupes conf remote)) =
           Out ''We are done. Check the trash for your files.''"
proof -
  have s: "send_all remote (chop 1000 (removable_ids dupes)) =
      (chop 1000 (removable_ids dupes), Returned)"
    using assms(3) by (intro send_all_ok) simp
  have r: "snd (main_body dupes conf remote) = Returned"
    unfolding sent_batches(2)[OF assms(2)] s by simp
  have c: "concat (executed (fst (main_body dupes conf remote))) = removable_ids dupes"
    unfolding sent_batches(1)[OF assms(2)] s by (simp add: concat_chop)
  have l: "last (fst (main_body dupes conf remote)) =
       Out ''We are done. Check the trash for your files.''"
    using assms(1,2) r by (rule returned_last)
  show ?thesis using main_body_remote_irrelevant[OF assms] r c l by (intro conjI)
qed

theorem partial_failure_unreported_witness:
  "[[rec1, rec2]] \<noteq> [] \<and> strip ''y'' = ''y'' \<and>
   (\<forall>b. remote_failing b \<noteq> BatchError) \<and> (\<forall>b. remote_ok b \<noteq> BatchError) \<and>
   main_body [[rec1, rec2]] ''y'' remote_failing = main_body [[rec1, rec2]] ''y'' remote_ok \<and>
   snd (main_body [[rec1, rec2]] ''y'' remote_failing) = Returned"
proof -
  have ne: "[[rec1, rec2]] \<noteq> []" by simp
  show ?thesis
    using partial_failure_unreported[OF ne strip_y remote_failing_completes remote_ok_completes]
      strip_y remote_ok_completes remote_failing_completes ne
    by blast
qed

section \<open>The photo date fixer\<close>

lemma fill_batch_eq:
  "fill_batch strptime isoformat chunk b = b @ List.map_filter (patch_for strptime isoformat) chunk"
  by (induction chunk arbitrary: b) (auto simp: List.map_filter_simps split: option.splits)

lemma length_map_filter: "length (List.map_filter f xs) \<le> length xs"
  by (simp add: List.map_filter_def)

text \<open>The batch calls of the outer loop: the batches of the chunks, those left empty
  skipped, until one call raises.\<close>

lemma patch_chunks_sent:
  "patch_chunks remote strptime isoformat cs sent =
     (sent @ fst (send_all remote
                (filter (\<lambda>b. b \<noteq> []) (map (\<lambda>c. fill_batch strptime isoformat c []) cs))),
      snd (send_all remote
             (filter (\<lambda>b. b \<noteq> []) (map (\<lambda>c. fill_batch strptime isoformat c []) cs))))"
proof (induction cs arbitrary: sent)
  case Nil
  then show ?case by simp
next
  case (Cons c cs)
  show ?case
  proof (cases "fill_batch strptime isoformat c [] = []")
    case True
    then show ?thesis using Cons.IH[of sent] by (simp add: execute_def)
  next
    case False
    show ?thesis
    proof (cases "remote (fill_batch strptime isoformat c [])")
      case (Completed rs)
      then show ?thesis
        using False Cons.IH[of "sent @ [fill_batch strptime isoformat c []]"]
        by (simp add: execute_def)
    next
      case BatchError
      then show ?thesis using False by (simp add: execute_def)
    qed
  qed
qed

lemma patch_chunks_batches:
  "set (fst (patch_chunks remote strptime isoformat cs sent)) \<subseteq>
     set sent \<union> (\<lambda>c. fill_batch strptime isoformat c []) ` set cs"
proof -
  let ?bs = "filter (\<lambda>b. b \<noteq> []) (map (\<lambda>c. fill_batch strptime isoformat c []) cs)"
  have "set (fst (send_all remote ?bs)) \<subseteq> set ?bs" by (rule send_all_subset)
  also have "\<dots> \<subseteq> (\<lambda>c. fill_batch strptime isoformat c []) ` set cs" by auto
  finally show ?thesis unfolding patch_chunks_sent by auto
qed

lemma chunks_100:
  "\<exists>cs. chunks files 100 = Some cs \<and> (\<forall>c\<in>set cs. length c \<le> 100 \<and> set c \<subseteq> set files)"
proof -
  let ?starts = "map (\<lambda>j. j * 100) [0..<(length files + 100 - 1) div 100]"
  let ?cs = "map (\<lambda>i. take 100 (drop i files)) ?starts"
  have a: "chunks files 100 = Some ?cs"
    unfolding chunks_def xrange_def by simp
  have b: "\<forall>c\<in>set ?cs. length c \<le> 100 \<and> set c \<subseteq> set files"
  proof
    fix c assume "c \<in> set ?cs"
    then obtain i where c: "c = take 100 (drop i files)" by auto
    have "set (take 100 (drop i files)) \<subseteq> set files"
      by (meson set_drop_subset set_take_subset subset_trans)
    then show "length c \<le> 100 \<and> set c \<subseteq> set files" unfolding c by simp
  qed
  show ?thesis using a b by blast
qed

lemma batch_patch_dates_batches:
  assumes "b \<in> set (fst (batch_patch_dates remote strptime isoformat files))"
  shows "\<exists>c. set c \<subseteq> set files \<and> length c \<le> 100 \<and>
             b = List.map_filter (patch_for strptime isoformat) c"
proof -
  from chunks_100[of files] obtain cs where cs: "chunks files 100 = Some cs"
      "\<forall>c\<in>set cs. length c \<le> 100 \<and> set c \<subseteq> set files"
    by (elim exE conjE)
  have e: "batch_patch_dates remote strptime isoformat files =
      patch_chunks remote strptime isoformat cs []"
    unfolding batch_patch_dates_def cs(1) by simp
  have "b \<in> set [] \<union> (\<lambda>c. fill_batch strptime isoformat c []) ` set cs"
    using assms patch_chunks_batches[of remote strptime isoformat cs "[]"] unfolding e by blast
  then obtain c where c: "c \<in> set cs" "b = fill_batch strptime isoformat c []"
    by auto
  have "b = List.map_filter (patch_for strptime isoformat) c"
    unfolding c(2) fill_batch_eq by simp
  moreover have "set c \<subseteq> set files" "length c \<le> 100" using cs(2) c(1) by simp_all
  ultimately show ?thesis by blast
qed

section \<open>The ceiling\<close>

lemma main_body_batches_bounded:
  "\<forall>b\<in>set (executed (fst (main_body dupes conf remote))). length b \<le> 1000"
proof (cases "dupes = []")
  case True
  then show ?thesis by (simp add: main_body_empty)
next
  case False
  from run_shape[OF False, of conf remote] obtain pre post where
    p: "fst (main_body dupes conf remote) =
       pre @ [OutWasted (fst (report dupes (0, [OutFound (length dupes), Out ''Please check them.'']))) ONE_GIG,
              RawInput ''Great. Now trash the extras? (y/n) ''] @ post"
       "\<forall>e\<in>set pre. is_output e" "\<forall>b\<in>set (executed post). length b \<le> 1000" by blast
  show ?thesis unfolding p(1) using p(2,3) by (simp add: executed_append executed_outputs)
qed

text \<open>
  C8 as stated fails for the deduper: its ceiling is the literal 1000 of line 117, the
  recommended maximum itself and not a lower value, and nothing of the run's input sets it.
  With 1000 removable members a batch of 1000 operations is executed.
\<close>

theorem ceiling_counterexample:
  "length (hd (executed (fst (main_body dupes_1000 ''y'' remote_ok)))) = 1000"
  unfolding dupes_1000_batches using removable_1000 by simp

text \<open>
  C8, amended. The ceilings are literals of the code, not configuration: no batch the
  deduper executes holds more than 1000 trash operations (and 1000 is reached), and no batch
  the photo date fixer executes holds more than 100 patch requests, a value below 1000.
\<close>

theorem batch_ceilings:
  "(\<forall>b\<in>set (executed (fst (main_body dupes conf remote))). length b \<le> 1000) \<and>
   (\<forall>b\<in>set (fst (batch_patch_dates premote strptime isoformat files)). length b \<le> 100)"
proof -
  have "\<forall>b\<in>set (fst (batch_patch_dates premote strptime isoformat files)). length b \<le> 100"
  proof
    fix b assume "b \<in> set (fst (batch_patch_dates premote strptime isoformat files))"
    then obtain c where "length c \<le> 100" "b = List.map_filter (patch_for strptime isoformat) c"
      using batch_patch_dates_batches by blast
    then show "length b \<le> 100" using length_map_filter[of "patch_for strptime isoformat" c] by simp
  qed
  then show ?thesis using main_body_batches_bounded by blast
qed

lemma images_chunks: "chunks [img1, img2, img3] 100 = Some [[img1, img2, img3]]"
proof -
  have "(length [img1, img2, img3] + 100 - 1) div 100 = (1::nat)" by simp
  then have "xrange (length [img1, img2, img3]) 100 = Some [0]"
    unfolding xrange_def by (simp del: length_Cons list.size)
  then show ?thesis unfolding chunks_def by simp
qed

lemma images_patches:
  "patch_for strptime1 isoformat1 img1 = Some (FilesPatch ''p1'' ''2014-01-02T03:04:05.0Z'')"
  "patch_for strptime1 isoformat1 img2 = None"
  "patch_for strptime1 isoformat1 img3 = None"
  by (simp_all add: patch_for_def parseDate_def formatDate_def strptime1_def isoformat1_def
      img1_def img2_def img3_def)

lemma images_run:
  "batch_patch_dates remote_ok strptime1 isoformat1 [img1, img2, img3] =
     ([[FilesPatch ''p1'' ''2014-01-02T03:04:05.0Z'']], Returned)"
  unfolding batch_patch_dates_def images_chunks
  by (simp add: images_patches remote_ok_def execute_def)

theorem batch_ceilings_witness:
  "[''2''] \<in> set (executed (fst (main_body [[rec1, rec2]] ''y'' remote_ok))) \<and>
   length [''2''] \<le> 1000 \<and>
   [FilesPatch ''p1'' ''2014-01-02T03:04:05.0Z'']
     \<in> set (fst (batch_patch_dates remote_ok strptime1 isoformat1 [img1, img2, img3])) \<and>
   length [FilesPatch ''p1'' ''2014-01-02T03:04:05.0Z''] \<le> 100"
  using batch_ceilings[of "[[rec1, rec2]]" "''y''" remote_ok remote_ok strptime1 isoformat1
      "[img1, img2, img3]"]
  by (simp add: scenario_run images_run)

section \<open>Dates already right\<close>












section \<open>The index\<close>

lemma map_of_index_append:
  "map_of (index_append k f index) =
     (map_of index)(k \<mapsto> (case map_of index k of None \<Rightarrow> [f] | Some v \<Rightarrow> v @ [f]))"
  by (induction index) (auto simp: fun_eq_iff)

lemma keys_index_append:
  "map fst (index_append k f index) =
     (if k \<in> set (map fst index) then map fst index else map fst index @ [k])"
  by (induction index) (auto simp del: set_map)

lemma distinct_index_append:
  "distinct (map fst index) \<Longrightarrow> distinct (map fst (index_append k f index))"
  by (simp add: keys_index_append del: set_map)

lemma build_index_inv:
  assumes "distinct (map fst index)"
    and "\<And>k. map_of index k = (if \<exists>f\<in>set seen. md5Checksum f = k
                               then Some (filter (\<lambda>f. md5Checksum f = k) seen) else None)"
  shows "distinct (map fst (build_index files index)) \<and>
         (\<forall>k. map_of (build_index files index) k =
           (if \<exists>f\<in>set (seen @ files). md5Checksum f = k
            then Some (filter (\<lambda>f. md5Checksum f = k) (seen @ files)) else None))"
  using assms
proof (induction files arbitrary: index seen)
  case Nil
  then show ?case by simp
next
  case (Cons f files)
  let ?index = "index_append (md5Checksum f) f index"
  have d: "distinct (map fst ?index)" using Cons.prems(1) by (rule distinct_index_append)
  have m: "\<And>k. map_of ?index k = (if \<exists>g\<in>set (seen @ [f]). md5Checksum g = k
                               then Some (filter (\<lambda>g. md5Checksum g = k) (seen @ [f])) else None)"
    unfolding map_of_index_append by (auto simp: Cons.prems(2) filter_empty_conv)
  from Cons.IH[OF d m] show ?case by simp
qed

lemma build_index_map:
  "distinct (map fst (build_index files []))"
  "map_of (build_index files []) k =
     (if \<exists>f\<in>set files. md5Checksum f = k
      then Some (filter (\<lambda>f. md5Checksum f = k) files) else None)"
  using build_index_inv[of "[]" "[]" files] by simp_all

lemma build_index_member:
  "(k, v) \<in> set (build_index files []) \<longleftrightarrow>
      (\<exists>f\<in>set files. md5Checksum f = k) \<and> v = filter (\<lambda>f. md5Checksum f = k) files"
proof -
  have "(k, v) \<in> set (build_index files []) \<longleftrightarrow> map_of (build_index files []) k = Some v"
    using map_of_eq_Some_iff[OF build_index_map(1)] by simp
  then show ?thesis unfolding build_index_map(2) by auto
qed

section \<open>The duplicate sets\<close>

lemma group_key:
  assumes "filter (\<lambda>f. md5Checksum f = k) files = filter (\<lambda>f. md5Checksum f = k') files"
    and "filter (\<lambda>f. md5Checksum f = k) files \<noteq> []"
  shows "k = k'"
proof -
  obtain g where g: "g \<in> set (filter (\<lambda>f. md5Checksum f = k) files)"
    using assms(2) by (meson last_in_set)
  then have "md5Checksum g = k" by simp
  moreover have "g \<in> set (filter (\<lambda>f. md5Checksum f = k') files)" using g assms(1) by simp
  then have "md5Checksum g = k'" by simp
  ultimately show ?thesis by simp
qed

lemma find_dupes_member:
  assumes "mset (items (build_index files [])) = mset (build_index files [])"
  shows "ds \<in> set (find_dupes items files) \<longleftrightarrow>
     (\<exists>k. ds = filter (\<lambda>f. md5Checksum f = k) files \<and> 2 \<le> length ds)"
proof -
  have s: "set (items (build_index files [])) = set (build_index files [])"
    using assms by (rule mset_eq_setD)
  have "ds \<in> set (find_dupes items files) \<longleftrightarrow>
      (\<exists>k. (k, ds) \<in> set (build_index files []) \<and> 1 < length ds)"
    unfolding find_dupes_eq using s by force
  also have "\<dots> \<longleftrightarrow> (\<exists>k. ds = filter (\<lambda>f. md5Checksum f = k) files \<and> 2 \<le> length ds)"
  proof
    assume "\<exists>k. (k, ds) \<in> set (build_index files []) \<and> 1 < length ds"
    then show "\<exists>k. ds = filter (\<lambda>f. md5Checksum f = k) files \<and> 2 \<le> length ds"
      unfolding build_index_member by auto
  next
    assume "\<exists>k. ds = filter (\<lambda>f. md5Checksum f = k) files \<and> 2 \<le> length ds"
    then obtain k where k: "ds = filter (\<lambda>f. md5Checksum f = k) files" "2 \<le> length ds"
      by blast
    then have "ds \<noteq> []" by auto
    then obtain g where "g \<in> set ds" by (meson last_in_set)
    then have "g \<in> set files" "md5Checksum g = k" using k(1) by simp_all
    then have "(k, ds) \<in> set (build_index files [])"
      unfolding build_index_member using k(1) by blast
    then show "\<exists>k. (k, ds) \<in> set (build_index files []) \<and> 1 < length ds"
      using k(2) by auto
  qed
  finally show ?thesis .
qed

lemma find_dupes_distinct:
  assumes "mset (items (build_index files [])) = mset (build_index files [])"
  shows "distinct (find_dupes items files)"
proof -
  let ?its = "items (build_index files [])"
  let ?P = "\<lambda>kv::string \<times> drive_file list. 1 < length (snd kv)"
  have s: "set ?its = set (build_index files [])" using assms by (rule mset_eq_setD)
  have "mset (map fst ?its) = mset (map fst (build_index files []))"
    using assms by (metis mset_map)
  then have "distinct (map fst ?its)"
    using build_index_map(1)[of files] mset_eq_imp_distinct_iff by blast
  then have d: "distinct (filter ?P ?its)" by (simp add: distinct_map)
  have "inj_on snd (set (filter ?P ?its))"
  proof (rule inj_onI)
    fix x y assume x: "x \<in> set (filter ?P ?its)" and y: "y \<in> set (filter ?P ?its)"
      and e: "snd x = snd y"
    obtain k v where xv: "x = (k, v)" by (cases x)
    obtain k' v' where yv: "y = (k', v')" by (cases y)
    have "(k, v) \<in> set (build_index files [])" "(k', v') \<in> set (build_index files [])"
         "1 < length v"
      using x y s xv yv by auto
    then have "v = filter (\<lambda>f. md5Checksum f = k) files"
              "v' = filter (\<lambda>f. md5Checksum f = k') files" "v \<noteq> []"
      unfolding build_index_member by auto
    then have "k = k'" using e xv yv group_key[of k files k'] by simp
    then show "x = y" using e xv yv by simp
  qed
  then show ?thesis unfolding find_dupes_eq using d by (simp add: distinct_map)
qed

text \<open>
  C5. Whatever order the dictionary enumerates its entries in, each entry once, the sets
  \<^verbatim>\<open>find_dupes\<close> returns are exactly, without repetition, the groups
  \<open>filter (\<lambda>f. md5Checksum f = fp) files\<close> of the fingerprints \<open>fp\<close> that at least two
  records carry: all the records with that fingerprint, in input order. Their number is the
  number of such fingerprints, and a record whose fingerprint no other record carries is in
  no set.
\<close>

theorem find_dupes_groups:
  assumes "mset (items (build_index files [])) = mset (build_index files [])"
  shows "length (find_dupes items files) =
           card {fp. 2 \<le> length (filter (\<lambda>f. md5Checksum f = fp) files)} \<and>
         distinct (find_dupes items files) \<and>
         set (find_dupes items files) =
           (\<lambda>fp. filter (\<lambda>f. md5Checksum f = fp) files) `
             {fp. 2 \<le> length (filter (\<lambda>f. md5Checksum f = fp) files)} \<and>
         (\<forall>f\<in>set files. length (filter (\<lambda>g. md5Checksum g = md5Checksum f) files) = 1 \<longrightarrow>
            (\<forall>dupeset\<in>set (find_dupes items files). f \<notin> set dupeset))"
proof -
  let ?G = "\<lambda>fp. filter (\<lambda>f. md5Checksum f = fp) files"
  let ?D = "{fp. 2 \<le> length (?G fp)}"
  have d: "distinct (find_dupes items files)" using assms by (rule find_dupes_distinct)
  have s: "set (find_dupes items files) = ?G ` ?D"
  proof (rule set_eqI)
    fix ds
    show "ds \<in> set (find_dupes items files) \<longleftrightarrow> ds \<in> ?G ` ?D"
      unfolding find_dupes_member[where items=items and files=files, OF assms] by blast
  qed
  have inj: "inj_on ?G ?D"
  proof (rule inj_onI)
    fix k k' assume "k \<in> ?D" "k' \<in> ?D" "?G k = ?G k'"
    moreover from \<open>k \<in> ?D\<close> have "?G k \<noteq> []" by auto
    ultimately show "k = k'" using group_key[of k files k'] by simp
  qed
  have "length (find_dupes items files) = card (set (find_dupes items files))"
    using d by (simp add: distinct_card)
  also have "\<dots> = card ?D" unfolding s using inj by (rule card_image)
  finally have l: "length (find_dupes items files) = card ?D" .
  have u: "\<forall>f\<in>set files. length (?G (md5Checksum f)) = 1 \<longrightarrow>
            (\<forall>dupeset\<in>set (find_dupes items files). f \<notin> set dupeset)"
  proof (intro ballI impI)
    fix f dupeset
    assume f: "f \<in> set files" "length (?G (md5Checksum f)) = 1"
      and m: "dupeset \<in> set (find_dupes items files)"
    obtain k where k: "dupeset = ?G k" "2 \<le> length dupeset"
      using m unfolding find_dupes_member[where items=items and files=files, OF assms] by blast
    show "f \<notin> set dupeset"
    proof
      assume "f \<in> set dupeset"
      then have "md5Checksum f = k" using k(1) by simp
      then show False using k f(2) by simp
    qed
  qed
  show ?thesis by (intro conjI) (fact l, fact d, fact s, fact u)
qed

theorem find_dupes_groups_witness:
  "mset (rev (build_index [rec1, rec2, rec3] [])) = mset (build_index [rec1, rec2, rec3] []) \<and>
   find_dupes rev [rec1, rec2, rec3] = [[rec1, rec2]] \<and>
   card {fp. 2 \<le> length (filter (\<lambda>f. md5Checksum f = fp) [rec1, rec2, rec3])} = 1 \<and>
   rec3 \<notin> set (hd (find_dupes rev [rec1, rec2, rec3]))"
proof -
  let ?D = "{fp. 2 \<le> length (filter (\<lambda>f. md5Checksum f = fp) [rec1, rec2, rec3])}"
  have p: "mset (rev (build_index [rec1, rec2, rec3] [])) = mset (build_index [rec1, rec2, rec3] [])"
    by simp
  have e: "find_dupes rev [rec1, rec2, rec3] = [[rec1, rec2]]"
    by (simp add: find_dupes_def rec1_def rec2_def rec3_def)
  have u: "length (filter (\<lambda>g. md5Checksum g = md5Checksum rec3) [rec1, rec2, rec3]) = 1"
    by (simp add: rec1_def rec2_def rec3_def)
  have m: "rec3 \<in> set [rec1, rec2, rec3]" by simp
  note t = find_dupes_groups[where items=rev and files="[rec1, rec2, rec3]", OF p]
  from t have "length (find_dupes rev [rec1, rec2, rec3]) = card ?D" by (rule conjunct1)
  then have "length [[rec1, rec2]] = card ?D" unfolding e .
  then have "card ?D = length [[rec1, rec2]]" by (rule sym)
  also have "length [[rec1, rec2]] = 1" by simp
  finally have c: "card ?D = 1" .
  from t have a: "\<forall>f\<in>set [rec1, rec2, rec3].
      length (filter (\<lambda>g. md5Checksum g = md5Checksum f) [rec1, rec2, rec3]) = 1 \<longrightarrow>
      (\<forall>dupeset\<in>set (find_dupes rev [rec1, rec2, rec3]). f \<notin> set dupeset)"
    by (elim conjE)
  from a m have "length (filter (\<lambda>g. md5Checksum g = md5Checksum rec3) [rec1, rec2, rec3]) = 1 \<longrightarrow>
      (\<forall>dupeset\<in>set (find_dupes rev [rec1, rec2, rec3]). rec3 \<notin> set dupeset)"
    by (rule bspec)
  from this u have n: "\<forall>dupeset\<in>set (find_dupes rev [rec1, rec2, rec3]). rec3 \<notin> set dupeset"
    by (rule mp)
  have "hd (find_dupes rev [rec1, rec2, rec3]) \<in> set (find_dupes rev [rec1, rec2, rec3])"
    unfolding e by simp
  with n have h: "rec3 \<notin> set (hd (find_dupes rev [rec1, rec2, rec3]))" by (rule bspec)
  show ?thesis by (intro conjI) (fact p, fact e, fact c, fact h)
qed

end
